theory Spec2Isabelle
  imports Complex_Main "HOL-Library.Multiset"
begin

section \<open>Circuits\<close>

text \<open>
  A circuit of the quantum library is an ordered sequence of instructions. The program
  uses three gates only: \<open>circuit.h(i)\<close>, \<open>circuit.x(i)\<close> and \<open>circuit.cz(i, j)\<close>, each
  of which appends one instruction to the circuit. \<open>len(circuit.instructions)\<close> is the
  length of the sequence.
\<close>

datatype gate = H nat | X nat | CZ nat nat

type_synonym circuit = "gate list"

subsection \<open>The oracle\<close>

text \<open>
  \<open>for i, bit in enumerate(target): if bit == '0': circuit.x(i)\<close>, with the circuit
  passed through and the running index of \<open>enumerate\<close> as an argument.
\<close>

fun oracle_flips :: "circuit \<Rightarrow> nat \<Rightarrow> string \<Rightarrow> circuit" where
  "oracle_flips circuit i [] = circuit"
| "oracle_flips circuit i (b # bs) =
     oracle_flips (if b = CHR ''0'' then circuit @ [X i] else circuit) (Suc i) bs"

definition apply_oracle :: "circuit \<Rightarrow> string \<Rightarrow> circuit" where
  "apply_oracle circuit target =
     (let circuit = oracle_flips circuit 0 target;
          circuit = circuit @ [CZ 0 1]
      in oracle_flips circuit 0 target)"

subsection \<open>The two circuit builders\<close>

text \<open>\<open>range(n)\<close> of a Python integer: empty when \<open>n \<le> 0\<close>.\<close>

definition py_range :: "int \<Rightarrow> nat list" where
  "py_range n = [0..<nat n]"

fun standard_loop :: "string \<Rightarrow> circuit \<Rightarrow> nat list \<Rightarrow> circuit" where
  "standard_loop target circuit [] = circuit"
| "standard_loop target circuit (k # ks) =
     (let circuit = apply_oracle circuit target;
          circuit = circuit @ [H 0, H 1, X 0, X 1, CZ 0 1, X 0, X 1, H 0, H 1]
      in standard_loop target circuit ks)"

definition create_standard_grover :: "string \<Rightarrow> int \<Rightarrow> circuit" where
  "create_standard_grover target iterations =
     (let circuit = [];
          circuit = circuit @ [H 0, H 1]
      in standard_loop target circuit (py_range iterations))"

fun vermicular_loop :: "string \<Rightarrow> int \<Rightarrow> circuit \<Rightarrow> nat list \<Rightarrow> circuit" where
  "vermicular_loop target iterations circuit [] = circuit"
| "vermicular_loop target iterations circuit (k # ks) =
     (let circuit = apply_oracle circuit target;
          circuit = circuit @ [H 0, H 1, X 0, X 1, CZ 0 1, X 0, X 1, H 0, H 1];
          circuit = (if iterations > 1 \<and> int k < iterations - 1
                     then circuit @ [X 0, X 0, X 1, X 1] else circuit)
      in vermicular_loop target iterations circuit ks)"

definition create_vermicular :: "string \<Rightarrow> int \<Rightarrow> circuit" where
  "create_vermicular target iterations =
     (let circuit = [];
          circuit = circuit @ [H 0, H 1];
          circuit = circuit @ [X 0, X 0, X 1, X 1];
          circuit = vermicular_loop target iterations circuit (py_range iterations)
      in circuit @ [X 0, X 0, X 1, X 1])"

subsection \<open>Names for the parts of a circuit\<close>

text \<open>
  The bit-flips of the oracle for a pattern: one on each position whose character is
  \<open>0\<close>, in position order.
\<close>

definition flip_ops :: "string \<Rightarrow> circuit" where
  "flip_ops target = map X (filter (\<lambda>i. target ! i = CHR ''0'') [0..<length target])"

definition oracle_ops :: "string \<Rightarrow> circuit" where
  "oracle_ops target = flip_ops target @ [CZ 0 1] @ flip_ops target"

definition superposition_ops :: circuit where
  "superposition_ops = [H 0, H 1]"

definition diffusion_ops :: circuit where
  "diffusion_ops = [H 0, H 1, X 0, X 1, CZ 0 1, X 0, X 1, H 0, H 1]"

text \<open>A decoupling pulse on a unit: a bit-flip followed at once by the same bit-flip.\<close>

definition pulse :: "nat \<Rightarrow> circuit" where
  "pulse u = [X u, X u]"

text \<open>The pulse block: a pulse on every unit of the two-unit circuit.\<close>

definition pulse_block :: circuit where
  "pulse_block = concat (map pulse [0..<2])"

section \<open>Measurement and the stage sequencer\<close>

text \<open>The exceptions a pass can end with.\<close>

datatype py_error = ZeroDivisionError | IndexError | KeyError | BackendError

text \<open>
  Python's \<open>str\<close> of a non-negative integer: its decimal digits. One measurement is a
  row of integers, one per unit.
\<close>

definition digit_char :: "nat \<Rightarrow> char" where
  "digit_char d = ''0123456789'' ! d"

fun str_nat :: "nat \<Rightarrow> string" where
  "str_nat n = (if n < 10 then [digit_char n] else str_nat (n div 10) @ [digit_char (n mod 10)])"

declare str_nat.simps [simp del]

text \<open>\<open>''.join(str(int(bit)) for bit in measurement)\<close>\<close>

definition measured_string :: "nat list \<Rightarrow> string" where
  "measured_string measurement = concat (map str_nat measurement)"

text \<open>The counting loop of \<open>measure_success_rate\<close>, with \<open>success_count\<close> passed through.\<close>

fun count_loop :: "string \<Rightarrow> nat \<Rightarrow> nat list list \<Rightarrow> nat" where
  "count_loop target success_count [] = success_count"
| "count_loop target success_count (measurement # rest) =
     count_loop target
       (if measured_string measurement = target then success_count + 1 else success_count) rest"

text \<open>
  The execution backend is outside the program: \<open>self.device.run(circuit, shots).result()\<close>
  either raises or returns the measurements, and may answer differently at each call.
  It is a parameter here, a function of its own state, the circuit and the shot count.
\<close>

type_synonym 's backend = "'s \<Rightarrow> circuit \<Rightarrow> int \<Rightarrow> (py_error + nat list list) \<times> 's"

text \<open>One entry of \<open>self.results\<close>.\<close>

record run_result =
  stages :: "real list"
  total :: real

text \<open>
  The demo object: its catalog, shot count, device and results dictionary. The field
  \<open>submitted\<close> is not in the source: it records every call of \<open>device.run\<close>, in order,
  so that what reaches the backend can be stated.
\<close>

record 's demo =
  targets :: "(string \<times> string) list"
  shots_per_test :: int
  device :: 's
  submitted :: "(circuit \<times> int) list"
  results :: "string \<rightharpoonup> run_result"

text \<open>
  Python's true division of two integers raises on a zero divisor; the quotient is taken
  in the reals.
\<close>

definition measure_success_rate ::
  "'s backend \<Rightarrow> 's demo \<Rightarrow> circuit \<Rightarrow> string \<Rightarrow> (py_error + real) \<times> 's demo" where
  "measure_success_rate run self circuit target =
     (case run (device self) circuit (shots_per_test self) of
        (response, device') \<Rightarrow>
          (let self = self\<lparr>device := device',
                            submitted := submitted self @ [(circuit, shots_per_test self)]\<rparr>
           in case response of
                Inl e \<Rightarrow> (Inl e, self)
              | Inr measurements \<Rightarrow>
                  (let success_count = count_loop target 0 measurements
                   in if length measurements = 0 then (Inl ZeroDivisionError, self)
                      else (Inr (real success_count / real (length measurements)), self))))"

text \<open>\<open>np.prod\<close> of a list of floats: the running product, starting from one.\<close>

definition np_prod :: "real list \<Rightarrow> real" where
  "np_prod xs = foldl (\<lambda>acc x. acc * x) 1 xs"

text \<open>
  The stage loop of \<open>run_multi_stage_search\<close>, with \<open>stage_results\<close> and
  \<open>cumulative_depth\<close> passed through. An exception of a stage ends the pass.
\<close>

fun stage_loop ::
  "'s backend \<Rightarrow> string \<Rightarrow> 's demo \<Rightarrow> real list \<Rightarrow> nat \<Rightarrow> (string \<times> string) list
     \<Rightarrow> (py_error + real list) \<times> 's demo" where
  "stage_loop run algorithm_type self stage_results cumulative_depth [] =
     (Inr stage_results, self)"
| "stage_loop run algorithm_type self stage_results cumulative_depth ((name, target) # rest) =
     (let circuit =
            (if algorithm_type = ''standard''
             then (let iterations = (if cumulative_depth < 2 then 1 else 2)
                   in create_standard_grover target iterations)
             else create_vermicular target 1)
      in case measure_success_rate run self circuit target of
           (Inl e, self) \<Rightarrow> (Inl e, self)
         | (Inr success_rate, self) \<Rightarrow>
             stage_loop run algorithm_type self (stage_results @ [success_rate])
               (cumulative_depth + length circuit) rest)"

definition run_multi_stage_search ::
  "'s backend \<Rightarrow> 's demo \<Rightarrow> string \<Rightarrow> (py_error + real list \<times> real) \<times> 's demo" where
  "run_multi_stage_search run self algorithm_type =
     (case stage_loop run algorithm_type self [] 0 (targets self) of
        (Inl e, self) \<Rightarrow> (Inl e, self)
      | (Inr stage_results, self) \<Rightarrow>
          (let total_success = np_prod stage_results;
               self = self\<lparr>results := (results self)(algorithm_type \<mapsto>
                        \<lparr>stages = stage_results, total = total_success\<rparr>)\<rparr>
           in (Inr (stage_results, total_success), self)))"

section \<open>The comparison\<close>

text \<open>A float that is either finite or \<open>float('inf')\<close>.\<close>

datatype pyfloat = Finite real | PosInf

text \<open>
  The loop of \<open>display_final_comparison\<close> over the catalog; the advantages it prints
  are collected in order. Indexing a list beyond its end raises.
\<close>

fun comparison_loop ::
  "run_result \<Rightarrow> run_result \<Rightarrow> pyfloat list \<Rightarrow> nat \<Rightarrow> (string \<times> string) list
     \<Rightarrow> py_error + pyfloat list" where
  "comparison_loop standard vermicular advantages i [] = Inr advantages"
| "comparison_loop standard vermicular advantages i ((name, target) # rest) =
     (if i < length (stages standard) then
        (let std_rate = stages standard ! i
         in if i < length (stages vermicular) then
              (let ver_rate = stages vermicular ! i;
                   advantage = (if std_rate > 0 then Finite (ver_rate / std_rate) else PosInf)
               in comparison_loop standard vermicular (advantages @ [advantage]) (Suc i) rest)
            else Inl IndexError)
      else Inl IndexError)"

definition display_final_comparison :: "'s demo \<Rightarrow> py_error + pyfloat list \<times> pyfloat" where
  "display_final_comparison self =
     (case results self ''standard'' of
        None \<Rightarrow> Inl KeyError
      | Some standard \<Rightarrow>
          (case results self ''vermicular'' of
             None \<Rightarrow> Inl KeyError
           | Some vermicular \<Rightarrow>
               (case comparison_loop standard vermicular [] 0 (targets self) of
                  Inl e \<Rightarrow> Inl e
                | Inr advantages \<Rightarrow>
                    (let improvement =
                           (if total standard > 0
                            then Finite (total vermicular / total standard) else PosInf)
                     in Inr (advantages, improvement)))))"

section \<open>What the gates do\<close>

text \<open>
  The program only lists gates; what a gate does to a state is the quantum library's
  and the device's business. The standard action of the three gates is written out here
  to state the claims about applying a circuit to a state. A state gives an amplitude
  to every assignment of a bit to each unit.
\<close>

type_synonym qstate = "(nat \<Rightarrow> bool) \<Rightarrow> complex"

fun apply_gate :: "gate \<Rightarrow> qstate \<Rightarrow> qstate" where
  "apply_gate (X i) \<psi> = (\<lambda>b. \<psi> (b(i := \<not> b i)))"
| "apply_gate (CZ i j) \<psi> = (\<lambda>b. if b i \<and> b j then - \<psi> b else \<psi> b)"
| "apply_gate (H i) \<psi> =
     (\<lambda>b. (\<psi> (b(i := False)) + (if b i then - 1 else 1) * \<psi> (b(i := True))) / complex_of_real (sqrt 2))"

definition run_circuit :: "circuit \<Rightarrow> qstate \<Rightarrow> qstate" where
  "run_circuit c \<psi> = fold apply_gate c \<psi>"

text \<open>
  The probability of reading an assignment after running a circuit from a state on an
  ideal, noiseless device: the squared modulus of its amplitude.
\<close>

definition ideal_probability :: "circuit \<Rightarrow> qstate \<Rightarrow> (nat \<Rightarrow> bool) \<Rightarrow> real" where
  "ideal_probability c \<psi> b = (cmod (run_circuit c \<psi> b))\<^sup>2"

text \<open>
  Deleting the decoupling pulses of a circuit, in the specification's words: a pulse is
  a bit-flip on a unit immediately followed by the same bit-flip. Every such pair is
  dropped, from left to right. The program has no such function; this one states what
  the Augmented circuit is without its pulses.
\<close>

fun remove_pulses :: "circuit \<Rightarrow> circuit" where
  "remove_pulses (X i # X j # rest) =
     (if i = j then remove_pulses rest else X i # remove_pulses (X j # rest))"
| "remove_pulses (g # rest) = g # remove_pulses rest"
| "remove_pulses [] = []"

section \<open>Names used in the statements\<close>

text \<open>
  The circuit a stage builds, as a function of the strategy, the pattern and the depth
  accumulated so far: the first statement of the loop body of \<open>stage_loop\<close>.
\<close>

definition stage_circuit :: "string \<Rightarrow> string \<Rightarrow> nat \<Rightarrow> circuit" where
  "stage_circuit algorithm_type target cumulative_depth =
     (if algorithm_type = ''standard''
      then create_standard_grover target (if cumulative_depth < 2 then 1 else 2)
      else create_vermicular target 1)"

text \<open>The backend calls made between two states of the demo object.\<close>

definition pass_calls :: "'s demo \<Rightarrow> 's demo \<Rightarrow> (circuit \<times> int) list" where
  "pass_calls before after = drop (length (submitted before)) (submitted after)"

text \<open>
  The answers the backend gives to a sequence of calls, from a state of the device on.
\<close>

fun backend_answers ::
  "'s backend \<Rightarrow> 's \<Rightarrow> (circuit \<times> int) list \<Rightarrow> (py_error + nat list list) list" where
  "backend_answers run d [] = []"
| "backend_answers run d ((c, shots) # calls) =
     (case run d c shots of (answer, d') \<Rightarrow> answer # backend_answers run d' calls)"

text \<open>
  The exception a measurement ends with, if any, as \<open>measure_success_rate\<close> decides it
  from the backend's answer: the backend's own error, or a division by zero when there
  are no samples.
\<close>

definition measurement_error :: "py_error + nat list list \<Rightarrow> py_error option" where
  "measurement_error answer =
     (case answer of
        Inl e \<Rightarrow> Some e
      | Inr measurements \<Rightarrow> if measurements = [] then Some ZeroDivisionError else None)"

text \<open>
  An entry of the results dictionary that a completed pass over a catalog has stored:
  one rate per stage, each in the unit interval, and their product as the total.
\<close>

definition completed_run :: "(string \<times> string) list \<Rightarrow> run_result \<Rightarrow> bool" where
  "completed_run catalog rr =
     (length (stages rr) = length catalog \<and>
      list_all (\<lambda>r. 0 \<le> r \<and> r \<le> 1) (stages rr) \<and>
      total rr = np_prod (stages rr))"

subsection \<open>Concrete backends and demo objects\<close>

text \<open>
  A backend that answers from a list prepared in advance, one answer per call, and
  raises once the list is used up.
\<close>

definition replay :: "(py_error + nat list list) list backend" where
  "replay answers circuit shots =
     (case answers of [] \<Rightarrow> (Inl BackendError, []) | answer # rest \<Rightarrow> (answer, rest))"

text \<open>
  The demo object as \<open>__init__\<close> leaves it: the catalog of three fragments and the
  results dictionary with its two empty entries. The shot count and the device come
  from \<open>setup_device\<close> and are arguments here.
\<close>

definition new_demo :: "int \<Rightarrow> 's \<Rightarrow> 's demo" where
  "new_demo shots dev =
     \<lparr>targets = [(''Alpha'', ''00''), (''Beta'', ''11''), (''Gamma'', ''10'')],
      shots_per_test = shots,
      device = dev,
      submitted = [],
      results = [''standard'' \<mapsto> \<lparr>stages = [], total = 0\<rparr>,
                 ''vermicular'' \<mapsto> \<lparr>stages = [], total = 0\<rparr>]\<rparr>"

text \<open>Answers to the three calls of one pass, four samples each.\<close>

definition sample_answers :: "(py_error + nat list list) list" where
  "sample_answers =
     [Inr [[0, 0], [0, 0], [1, 0], [0, 0]],
      Inr [[1, 1], [1, 1], [0, 1], [1, 0]],
      Inr [[1, 0], [1, 0], [1, 0], [1, 0]]]"

text \<open>
  A demo object whose only pattern has one character, with a backend that answers with
  two samples of one unit; and a demo object with the catalog of \<open>__init__\<close>, a shot
  count of zero and a backend that answers with no samples.
\<close>

definition mismatched_demo :: "(py_error + nat list list) list demo" where
  "mismatched_demo = (new_demo 2 [Inr [[0], [1]]])\<lparr>targets := [(''Alpha'', ''0'')]\<rparr>"

definition zero_shot_demo :: "(py_error + nat list list) list demo" where
  "zero_shot_demo = new_demo 0 [Inr []]"

text \<open>Answers where the second call returns no samples.\<close>

definition failing_answers :: "(py_error + nat list list) list" where
  "failing_answers = [Inr [[0, 0], [0, 1]], Inr []]"

text \<open>Answers to the six calls of two passes, and the demo object after both passes.\<close>

definition comparison_answers :: "(py_error + nat list list) list" where
  "comparison_answers =
     [Inr [[1, 1], [0, 1]], Inr [[1, 1], [0, 0]], Inr [[1, 0], [1, 0]],
      Inr [[0, 0], [0, 1]], Inr [[1, 1], [1, 1]], Inr [[1, 0], [1, 0]]]"

definition compared_demo :: "(py_error + nat list list) list demo" where
  "compared_demo =
     snd (run_multi_stage_search replay
            (snd (run_multi_stage_search replay (new_demo 2 comparison_answers) ''standard''))
            ''vermicular'')"

section \<open>Structure of the circuits\<close>

lemma oracle_flips_shape:
  "oracle_flips circuit i bs =
     circuit @ map X (filter (\<lambda>j. bs ! (j - i) = CHR ''0'') [i..<i + length bs])"
proof (induction bs arbitrary: circuit i)
  case Nil
  show ?case by simp
next
  case (Cons b bs)
  have same: "filter (\<lambda>j. (c # bs) ! (j - i) = CHR ''0'') [Suc i..<n]
      = filter (\<lambda>j. bs ! (j - Suc i) = CHR ''0'') [Suc i..<n]" for c n
    by (rule filter_cong) (auto simp: nth_Cons')
  have split_range: "[i..<i + length (b # bs)] = i # [Suc i..<Suc i + length bs]"
    using upt_conv_Cons [of i "Suc (i + length bs)"] by (simp del: upt_Suc)
  show ?case
    unfolding oracle_flips.simps Cons.IH split_range
    by (simp add: same del: upt_Suc)
qed

lemma oracle_flips_flip_ops: "oracle_flips circuit 0 target = circuit @ flip_ops target"
  by (simp add: oracle_flips_shape flip_ops_def)

lemma apply_oracle_append: "apply_oracle circuit target = circuit @ oracle_ops target"
  by (simp add: apply_oracle_def oracle_ops_def oracle_flips_flip_ops)

lemma standard_loop_append:
  "standard_loop target circuit ks =
     circuit @ concat (replicate (length ks) (oracle_ops target @ diffusion_ops))"
  by (induction ks arbitrary: circuit) (simp_all add: apply_oracle_append diffusion_ops_def)

lemma pulse_block_eq: "pulse_block = [X 0, X 0, X 1, X 1]"
proof -
  have "[0..<2] = [0, Suc 0]"
    by (simp add: upt_conv_Cons numeral_2_eq_2)
  then show ?thesis
    by (simp add: pulse_block_def pulse_def)
qed

lemma vermicular_loop_append:
  "vermicular_loop target iterations circuit ks =
     circuit @ concat (map (\<lambda>k. oracle_ops target @ diffusion_ops @
        (if iterations > 1 \<and> int k < iterations - 1 then pulse_block else [])) ks)"
proof (induction ks arbitrary: circuit)
  case Nil
  show ?case by simp
next
  case (Cons k ks)
  have step: "vermicular_loop target iterations circuit (k # ks) =
      vermicular_loop target iterations (circuit @ oracle_ops target @ diffusion_ops @
        (if iterations > 1 \<and> int k < iterations - 1 then pulse_block else [])) ks"
    by (simp add: apply_oracle_append diffusion_ops_def pulse_block_eq Let_def)
  show ?case
    unfolding step Cons.IH by simp
qed

lemma create_standard_grover_shape:
  "create_standard_grover target iterations =
     superposition_ops @ concat (replicate (nat iterations) (oracle_ops target @ diffusion_ops))"
  by (simp add: create_standard_grover_def standard_loop_append py_range_def superposition_ops_def)

lemma create_vermicular_shape:
  "create_vermicular target iterations =
     superposition_ops @ pulse_block @
     concat (map (\<lambda>k. oracle_ops target @ diffusion_ops @
        (if iterations > 1 \<and> int k < iterations - 1 then pulse_block else [])) [0..<nat iterations])
     @ pulse_block"
  by (simp add: create_vermicular_def vermicular_loop_append py_range_def superposition_ops_def
      pulse_block_eq Let_def)

lemma blocks_between:
  "concat (map (\<lambda>k. A @ (if int k < int n then P else [])) [0..<Suc n])
     = A @ concat (replicate n (P @ A))"
proof (induction n)
  case 0 show ?case by simp
next
  case (Suc n)
  have "concat (map (\<lambda>k. A @ (if int k < int (Suc n) then P else [])) [0..<Suc (Suc n)])
      = concat (map (\<lambda>k. A @ (if int k < int (Suc n) then P else [])) [0..<Suc n]) @ A"
    by simp
  also have "map (\<lambda>k. A @ (if int k < int (Suc n) then P else [])) [0..<Suc n]
     = map (\<lambda>k. A @ P) [0..<Suc n]"
    by (rule map_cong) auto
  also have "concat (map (\<lambda>k. A @ P) [0..<Suc n]) @ A = A @ concat (replicate (Suc n) (P @ A))"
    by (induction n) (simp_all add: map_replicate_const)
  finally show ?case .
qed

lemma create_vermicular_unrolled:
  assumes "1 \<le> iterations"
  shows "create_vermicular target iterations =
           superposition_ops @ pulse_block @
           (oracle_ops target @ diffusion_ops) @
           concat (replicate (nat iterations - 1) (pulse_block @ oracle_ops target @ diffusion_ops))
           @ pulse_block"
proof -
  define n where "n = nat iterations - 1"
  have n: "iterations = int (Suc n)"
    using assms by (simp add: n_def)
  show "create_vermicular target iterations =
           superposition_ops @ pulse_block @
           (oracle_ops target @ diffusion_ops) @
           concat (replicate (nat iterations - 1) (pulse_block @ oracle_ops target @ diffusion_ops))
           @ pulse_block"
  proof (cases n)
    case 0
    then have "iterations = 1"
      using n by simp
    then show ?thesis
      unfolding create_vermicular_shape by simp
  next
    case (Suc m)
    have body: "map (\<lambda>k. oracle_ops target @ diffusion_ops @
        (if iterations > 1 \<and> int k < iterations - 1 then pulse_block else [])) [0..<Suc n]
      = map (\<lambda>k. (oracle_ops target @ diffusion_ops) @
        (if int k < int n then pulse_block else [])) [0..<Suc n]"
      by (rule map_cong) (auto simp: n Suc)
    have nat_it: "nat iterations = Suc n"
      using n by simp
    show ?thesis
      unfolding create_vermicular_shape nat_it body
        blocks_between [of "oracle_ops target @ diffusion_ops" n pulse_block]
      by simp
  qed
qed

lemma length_concat_replicate: "length (concat (replicate n xs)) = n * length xs"
  by (induction n) simp_all

section \<open>The claims about the circuits\<close>

text \<open>
  C3: for every target pattern, the oracle appends to the circuit a bit-flip on each unit
  whose pattern character is \<open>0\<close>, in position order, then one conditional-phase gate
  on units 0 and 1 (all units of a pattern of width 2), then the same bit-flips again in
  position order. What is appended depends on the pattern only, not on the circuit it is
  appended to: two calls with the same pattern append the same operations.
\<close>

theorem oracle_sequence:
  "apply_oracle circuit target =
     circuit @
     map X (filter (\<lambda>i. target ! i = CHR ''0'') [0..<length target]) @
     [CZ 0 1] @
     map X (filter (\<lambda>i. target ! i = CHR ''0'') [0..<length target])
   \<and> drop (length circuit) (apply_oracle circuit target) =
       drop (length circuit') (apply_oracle circuit' target)"
  by (simp add: apply_oracle_append oracle_ops_def flip_ops_def)

text \<open>
  C2: for every target pattern and every iteration count of at least one, the Baseline
  circuit is the initial superposition followed by that many blocks of oracle and
  diffusion; the Augmented circuit is the same superposition and the same blocks, with
  the pulse block (a pulse on every unit) after the superposition, between each two
  consecutive blocks and after the last block, and with nothing else. The oracle part of
  a block is what \<open>apply_oracle\<close> appends.
\<close>

theorem vermicular_structure:
  assumes "1 \<le> iterations"
  shows "create_standard_grover target iterations =
           superposition_ops @
           concat (replicate (nat iterations) (oracle_ops target @ diffusion_ops))
       \<and> create_vermicular target iterations =
           superposition_ops @ pulse_block @
           (oracle_ops target @ diffusion_ops) @
           concat (replicate (nat iterations - 1) (pulse_block @ oracle_ops target @ diffusion_ops))
           @ pulse_block
       \<and> oracle_ops target = apply_oracle [] target"
  using create_standard_grover_shape [of target iterations]
    create_vermicular_unrolled [OF assms, of target]
  by (simp add: apply_oracle_append)

theorem vermicular_structure_witness:
  "(1::int) \<le> 2 \<and>
   create_standard_grover ''10'' 2 =
     [H 0, H 1,
      X 1, CZ 0 1, X 1, H 0, H 1, X 0, X 1, CZ 0 1, X 0, X 1, H 0, H 1,
      X 1, CZ 0 1, X 1, H 0, H 1, X 0, X 1, CZ 0 1, X 0, X 1, H 0, H 1] \<and>
   create_vermicular ''10'' 2 =
     [H 0, H 1, X 0, X 0, X 1, X 1,
      X 1, CZ 0 1, X 1, H 0, H 1, X 0, X 1, CZ 0 1, X 0, X 1, H 0, H 1,
      X 0, X 0, X 1, X 1,
      X 1, CZ 0 1, X 1, H 0, H 1, X 0, X 1, CZ 0 1, X 0, X 1, H 0, H 1,
      X 0, X 0, X 1, X 1]"
  using vermicular_structure [of 2 "''10''"]
  by (simp add: superposition_ops_def pulse_block_eq oracle_ops_def flip_ops_def
      diffusion_ops_def numeral_2_eq_2)

text \<open>
  C10: for every target pattern and every iteration count of at least one, the Augmented
  circuit has exactly \<open>4 * (iterations + 1)\<close> more operations than the Baseline circuit.
\<close>

theorem depth_difference:
  assumes "1 \<le> iterations"
  shows "int (length (create_vermicular target iterations)) =
         int (length (create_standard_grover target iterations)) + 4 * (iterations + 1)"
proof -
  define n where "n = nat iterations - 1"
  have n: "nat iterations = Suc n" and it: "iterations = int n + 1"
    using assms by (simp_all add: n_def)
  have pb: "length pulse_block = 4"
    by (simp add: pulse_block_eq)
  define B where "B = length (oracle_ops target @ diffusion_ops)"
  have standard: "length (create_standard_grover target iterations) = 2 + Suc n * B"
    unfolding create_standard_grover_shape n
    by (simp add: length_concat_replicate superposition_ops_def B_def)
  have vermicular: "length (create_vermicular target iterations) = 2 + Suc n * B + 4 * (n + 2)"
    unfolding create_vermicular_unrolled [OF assms] n
    by (simp add: length_concat_replicate superposition_ops_def pb B_def algebra_simps)
  show ?thesis
    using standard vermicular it by simp
qed

theorem depth_difference_witness:
  "(1::int) \<le> 3 \<and>
   int (length (create_vermicular ''00'' 3)) = int (length (create_standard_grover ''00'' 3)) + 16"
  using depth_difference [of 3 "''00''"] by simp

section \<open>Measurement, passes and the comparison\<close>

lemma count_loop_count:
  "count_loop target c ms = c + size (filter_mset (\<lambda>m. measured_string m = target) (mset ms))"
  by (induction ms arbitrary: c) simp_all

lemma matches_le_length:
  "size (filter_mset P (mset ms)) \<le> length ms"
  by (metis size_filter_mset_lesseq size_mset)

lemma measure_success_rate_fields:
  assumes "measure_success_rate run self circuit target = (r, self')"
  shows "submitted self' = submitted self @ [(circuit, shots_per_test self)]"
    and "targets self' = targets self"
    and "shots_per_test self' = shots_per_test self"
    and "results self' = results self"
  using assms
  by (auto simp: measure_success_rate_def Let_def split: prod.splits sum.splits if_splits)

lemma measure_success_rate_value:
  assumes "measure_success_rate run self circuit target = (Inr rate, self')"
  shows "\<exists>ms d. run (device self) circuit (shots_per_test self) = (Inr ms, d) \<and> ms \<noteq> [] \<and>
           rate = real (size (filter_mset (\<lambda>m. measured_string m = target) (mset ms)))
                    / real (length ms)"
  using assms
  by (auto simp: measure_success_rate_def Let_def count_loop_count
      split: prod.splits sum.splits if_splits)

lemma measure_success_rate_range:
  assumes "measure_success_rate run self circuit target = (Inr rate, self')"
  shows "0 \<le> rate \<and> rate \<le> 1"
proof -
  obtain ms d where ms: "ms \<noteq> []"
    and rate: "rate = real (size (filter_mset (\<lambda>m. measured_string m = target) (mset ms)))
                    / real (length ms)"
    using measure_success_rate_value [OF assms] by blast
  have "size (filter_mset (\<lambda>m. measured_string m = target) (mset ms)) \<le> length ms"
    by (rule matches_le_length)
  then show ?thesis
    using ms by (simp add: rate)
qed

lemma stage_loop_Cons:
  "stage_loop run alg self sr cd ((name, target) # rest) =
     (case measure_success_rate run self (stage_circuit alg target cd) target of
        (Inl e, s) \<Rightarrow> (Inl e, s)
      | (Inr rate, s) \<Rightarrow>
          stage_loop run alg s (sr @ [rate]) (cd + length (stage_circuit alg target cd)) rest)"
  unfolding stage_loop.simps stage_circuit_def Let_def ..

lemma stage_loop_fields:
  "stage_loop run alg self sr cd ts = (r, self') \<Longrightarrow>
     targets self' = targets self \<and> shots_per_test self' = shots_per_test self \<and>
     results self' = results self"
proof (induction ts arbitrary: self sr cd)
  case Nil
  then show ?case by simp
next
  case (Cons nt rest)
  obtain name target where nt: "nt = (name, target)"
    by (cases nt)
  define c where "c = stage_circuit alg target cd"
  obtain m self1 where m: "measure_success_rate run self c target = (m, self1)"
    by (cases "measure_success_rate run self c target")
  note f = measure_success_rate_fields [OF m]
  show ?case
  proof (cases m)
    case (Inl e)
    then have "self' = self1"
      using Cons.prems m unfolding nt stage_loop_Cons c_def [symmetric] by simp
    then show ?thesis using f by simp
  next
    case (Inr rate)
    then have "stage_loop run alg self1 (sr @ [rate]) (cd + length c) rest = (r, self')"
      using Cons.prems m unfolding nt stage_loop_Cons c_def [symmetric] by simp
    from Cons.IH [OF this] show ?thesis using f by simp
  qed
qed

lemma stage_loop_trace:
  "stage_loop run alg self sr cd ts = (r, self') \<Longrightarrow>
   \<exists>calls. submitted self' = submitted self @ calls \<and> length calls \<le> length ts \<and>
     (\<forall>k<length calls. calls ! k =
        (stage_circuit alg (snd (ts ! k)) (cd + sum_list (map (length \<circ> fst) (take k calls))),
         shots_per_test self)) \<and>
     (case r of
        Inl e \<Rightarrow> calls \<noteq> []
      | Inr sr' \<Rightarrow> length calls = length ts \<and>
          (\<exists>new. sr' = sr @ new \<and> length new = length ts \<and> (\<forall>x\<in>set new. 0 \<le> x \<and> x \<le> 1)))"
proof (induction ts arbitrary: self sr cd)
  case Nil
  then show ?case by auto
next
  case (Cons nt rest)
  obtain name target where nt: "nt = (name, target)"
    by (cases nt)
  define c where "c = stage_circuit alg target cd"
  obtain m self1 where m: "measure_success_rate run self c target = (m, self1)"
    by (cases "measure_success_rate run self c target")
  note f = measure_success_rate_fields [OF m]
  show ?case
  proof (cases m)
    case (Inl e)
    then have "r = Inl e" "self' = self1"
      using Cons.prems m unfolding nt stage_loop_Cons c_def [symmetric] by simp_all
    then show ?thesis
      using f by (intro exI [of _ "[(c, shots_per_test self)]"]) (simp add: nt c_def)
  next
    case (Inr rate)
    then have loop: "stage_loop run alg self1 (sr @ [rate]) (cd + length c) rest = (r, self')"
      using Cons.prems m unfolding nt stage_loop_Cons c_def [symmetric] by simp
    have rate: "0 \<le> rate \<and> rate \<le> 1"
      using measure_success_rate_range m Inr by blast
    from Cons.IH [OF loop] obtain calls where
      sub: "submitted self' = submitted self1 @ calls" and
      len: "length calls \<le> length rest" and
      nth: "\<forall>k<length calls. calls ! k =
        (stage_circuit alg (snd (rest ! k))
           (cd + length c + sum_list (map (length \<circ> fst) (take k calls))),
         shots_per_test self1)" and
      res: "case r of
        Inl e \<Rightarrow> calls \<noteq> []
      | Inr sr' \<Rightarrow> length calls = length rest \<and>
          (\<exists>new. sr' = (sr @ [rate]) @ new \<and> length new = length rest \<and>
             (\<forall>x\<in>set new. 0 \<le> x \<and> x \<le> 1))"
      by blast
    let ?calls = "(c, shots_per_test self) # calls"
    have 1: "submitted self' = submitted self @ ?calls"
      using sub f by simp
    have 2: "length ?calls \<le> length (nt # rest)"
      using len by simp
    have 3: "\<forall>k<length ?calls. ?calls ! k =
        (stage_circuit alg (snd ((nt # rest) ! k))
           (cd + sum_list (map (length \<circ> fst) (take k ?calls))),
         shots_per_test self)"
    proof (intro allI impI)
      fix k assume k: "k < length ?calls"
      show "?calls ! k =
        (stage_circuit alg (snd ((nt # rest) ! k))
           (cd + sum_list (map (length \<circ> fst) (take k ?calls))),
         shots_per_test self)"
      proof (cases k)
        case 0
        then show ?thesis by (simp add: nt c_def)
      next
        case (Suc j)
        then have "j < length calls" using k by simp
        then show ?thesis
          using nth f by (simp add: Suc add.assoc)
      qed
    qed
    have 4: "case r of
        Inl e \<Rightarrow> ?calls \<noteq> []
      | Inr sr' \<Rightarrow> length ?calls = length (nt # rest) \<and>
          (\<exists>new. sr' = sr @ new \<and> length new = length (nt # rest) \<and>
             (\<forall>x\<in>set new. 0 \<le> x \<and> x \<le> 1))"
    proof (cases r)
      case (Inl e)
      then show ?thesis by simp
    next
      case (Inr sr')
      with res obtain new where new: "length calls = length rest" "sr' = (sr @ [rate]) @ new"
        "length new = length rest" "\<forall>x\<in>set new. 0 \<le> x \<and> x \<le> 1"
        by auto
      have "sr' = sr @ (rate # new) \<and> length (rate # new) = length (nt # rest) \<and>
             (\<forall>x\<in>set (rate # new). 0 \<le> x \<and> x \<le> 1)"
        using new rate by simp
      then show ?thesis
        using Inr new(1) by (simp del: set_simps list.set)
    qed
    from 1 2 3 4 show ?thesis by blast
  qed
qed

text \<open>
  C5: when the backend returns a non-empty collection of samples, the estimator returns
  the number of samples whose bit-string equals the target pattern divided by the number
  of samples, both counted in the multiset of samples, and the result lies between 0
  and 1. The quotient is the real one: the rounding of Python's float division is not
  modelled.
\<close>

theorem success_rate_estimate:
  assumes "run (device self) circuit (shots_per_test self) = (Inr measurements, d)"
    and "measurements \<noteq> []"
  shows "fst (measure_success_rate run self circuit target) =
           Inr (real (size (filter_mset (\<lambda>m. measured_string m = target) (mset measurements)))
                / real (size (mset measurements)))
       \<and> 0 \<le> real (size (filter_mset (\<lambda>m. measured_string m = target) (mset measurements)))
                / real (size (mset measurements))
       \<and> real (size (filter_mset (\<lambda>m. measured_string m = target) (mset measurements)))
                / real (size (mset measurements)) \<le> 1"
proof -
  have "size (filter_mset (\<lambda>m. measured_string m = target) (mset measurements))
          \<le> length measurements"
    by (rule matches_le_length)
  then show ?thesis
    using assms by (simp add: measure_success_rate_def Let_def count_loop_count)
qed

lemma str_nat_bits: "str_nat 0 = ''0''" "str_nat (Suc 0) = ''1''" "str_nat 1 = ''1''"
  by (simp_all add: str_nat.simps digit_char_def)

theorem success_rate_estimate_witness:
  "replay (device (new_demo 4 [Inr [[0, 0], [1, 1], [0, 0], [1, 0]]])) [H 0] 4 =
     (Inr [[0, 0], [1, 1], [0, 0], [1, 0]], []) \<and>
   [[0, 0], [1, 1], [0, 0], [1, 0]] \<noteq> ([] :: nat list list) \<and>
   fst (measure_success_rate replay (new_demo 4 [Inr [[0, 0], [1, 1], [0, 0], [1, 0]]])
          [H 0] ''00'') = Inr (1 / 2)"
  using success_rate_estimate [of replay "new_demo 4 [Inr [[0, 0], [1, 1], [0, 0], [1, 0]]]"
      "[H 0]" "[[0, 0], [1, 1], [0, 0], [1, 0]]" "[]" "''00''"]
  by (simp add: replay_def new_demo_def measured_string_def str_nat_bits)

lemma foldl_times: "foldl (\<lambda>acc x. acc * x) a xs = a * prod_list xs" for a :: real
  by (induction xs arbitrary: a) (simp_all add: mult.assoc)

lemma np_prod_prod_list: "np_prod xs = prod_list xs"
  by (simp add: np_prod_def foldl_times)

lemma prod_list_unit_interval:
  fixes xs :: "real list"
  shows "\<forall>x\<in>set xs. 0 \<le> x \<and> x \<le> 1 \<Longrightarrow> 0 \<le> prod_list xs \<and> prod_list xs \<le> 1"
proof (induction xs)
  case Nil
  show ?case by simp
next
  case (Cons x xs)
  then have "0 \<le> x" "x \<le> 1" "0 \<le> prod_list xs" "prod_list xs \<le> 1"
    by simp_all
  then show ?case
    by (simp add: mult_le_one)
qed

lemma run_multi_stage_search_Inr:
  assumes "run_multi_stage_search run self alg = (Inr (sr, tot), self')"
  shows "\<exists>s1. stage_loop run alg self [] 0 (targets self) = (Inr sr, s1) \<and> tot = np_prod sr \<and>
           self' = s1\<lparr>results := (results s1)(alg \<mapsto> \<lparr>stages = sr, total = tot\<rparr>)\<rparr>"
  using assms
  by (auto simp: run_multi_stage_search_def Let_def split: prod.splits sum.splits)

lemma run_multi_stage_search_Inl:
  assumes "run_multi_stage_search run self alg = (Inl e, self')"
  shows "stage_loop run alg self [] 0 (targets self) = (Inl e, self')"
  using assms
  by (auto simp: run_multi_stage_search_def Let_def split: prod.splits sum.splits)

lemma run_multi_stage_search_rates:
  assumes "run_multi_stage_search run self alg = (Inr (sr, tot), self')"
  shows "length sr = length (targets self)" and "\<forall>x\<in>set sr. 0 \<le> x \<and> x \<le> 1"
    and "tot = np_prod sr"
proof -
  obtain s1 where loop: "stage_loop run alg self [] 0 (targets self) = (Inr sr, s1)"
    and tot: "tot = np_prod sr"
    using run_multi_stage_search_Inr [OF assms] by blast
  from stage_loop_trace [OF loop]
  show "length sr = length (targets self)" and "\<forall>x\<in>set sr. 0 \<le> x \<and> x \<le> 1"
    by auto
  show "tot = np_prod sr" by (rule tot)
qed

text \<open>
  C4: a pass that completes returns as total the product of the rates of its stages, one
  rate per stage of the catalog and each in the unit interval; with one further rate in
  the unit interval appended, the product is the total times that rate, and not greater
  than the total.
\<close>

theorem total_success_product:
  assumes "run_multi_stage_search run self algorithm_type =
             (Inr (stage_results, total_success), self')"
  shows "total_success = prod_list stage_results \<and>
         length stage_results = length (targets self) \<and>
         (\<forall>rate\<in>set stage_results. 0 \<le> rate \<and> rate \<le> 1) \<and>
         (\<forall>rate. 0 \<le> rate \<and> rate \<le> 1 \<longrightarrow>
            np_prod (stage_results @ [rate]) = total_success * rate \<and>
            np_prod (stage_results @ [rate]) \<le> total_success)"
proof -
  note r = run_multi_stage_search_rates [OF assms]
  have tot: "total_success = prod_list stage_results"
    using r(3) by (simp add: np_prod_prod_list)
  have nonneg: "0 \<le> total_success"
    using prod_list_unit_interval [OF r(2)] tot by simp
  have "np_prod (stage_results @ [rate]) = total_success * rate \<and>
        np_prod (stage_results @ [rate]) \<le> total_success"
    if "0 \<le> rate \<and> rate \<le> 1" for rate
    using that nonneg by (simp add: np_prod_prod_list tot mult_left_le)
  then show ?thesis
    using tot r(1,2) by blast
qed

lemma upt_nat_numeral_simps: "py_range 1 = [0]" "py_range 2 = [0, 1]"
  by (simp_all add: py_range_def upt_rec)

lemmas eval_simps = run_multi_stage_search_def measure_success_rate_def replay_def new_demo_def
  sample_answers_def measured_string_def str_nat_bits Let_def np_prod_def
  create_standard_grover_def create_vermicular_def apply_oracle_def upt_nat_numeral_simps

lemma eval_standard:
  "fst (run_multi_stage_search replay (new_demo 4 sample_answers) ''standard'')
     = Inr ([3 / 4, 1 / 2, 1], 3 / 8)"
  by (simp add: eval_simps)

lemma pass_trace:
  assumes "run_multi_stage_search run self alg = (r, self')"
  shows "submitted self' = submitted self @ pass_calls self self' \<and>
         length (pass_calls self self') \<le> length (targets self) \<and>
         (\<forall>k<length (pass_calls self self'). pass_calls self self' ! k =
            (stage_circuit alg (snd (targets self ! k))
               (sum_list (map (length \<circ> fst) (take k (pass_calls self self')))),
             shots_per_test self)) \<and>
         (isl r \<longrightarrow> pass_calls self self' \<noteq> []) \<and>
         (\<not> isl r \<longrightarrow> length (pass_calls self self') = length (targets self))"
proof -
  obtain r1 s1 where loop: "stage_loop run alg self [] 0 (targets self) = (r1, s1)"
    and sub: "submitted self' = submitted s1" and isl: "isl r = isl r1"
  proof (cases r)
    case (Inl e)
    then show ?thesis
      using run_multi_stage_search_Inl [of run self alg e self'] assms that by simp
  next
    case (Inr x)
    obtain sr tot where x: "x = (sr, tot)" by (cases x)
    from run_multi_stage_search_Inr [of run self alg sr tot self'] assms Inr x
    obtain s1 where "stage_loop run alg self [] 0 (targets self) = (Inr sr, s1)"
      "self' = s1\<lparr>results := (results s1)(alg \<mapsto> \<lparr>stages = sr, total = tot\<rparr>)\<rparr>"
      by auto
    then show ?thesis
      using that [of "Inr sr" s1] Inr by simp
  qed
  from stage_loop_trace [OF loop] obtain calls where
    c: "submitted s1 = submitted self @ calls" "length calls \<le> length (targets self)"
      "\<forall>k<length calls. calls ! k =
        (stage_circuit alg (snd (targets self ! k))
           (0 + sum_list (map (length \<circ> fst) (take k calls))), shots_per_test self)"
    and res: "case r1 of Inl e \<Rightarrow> calls \<noteq> []
      | Inr sr' \<Rightarrow> length calls = length (targets self) \<and>
          (\<exists>new. sr' = [] @ new \<and> length new = length (targets self) \<and>
             (\<forall>x\<in>set new. 0 \<le> x \<and> x \<le> 1))"
    by blast
  have calls: "pass_calls self self' = calls"
    by (simp add: pass_calls_def sub c(1))
  have "isl r \<longrightarrow> calls \<noteq> []" "\<not> isl r \<longrightarrow> length calls = length (targets self)"
    using res isl by (cases r1; simp)+
  then show ?thesis
    unfolding calls using c sub by simp
qed

text \<open>
  C1: in a pass, the circuits reach the backend in catalog order, at most one per stage and
  exactly one per stage when the pass completes. The circuit of stage \<open>k\<close> is,
  for the strategy \<open>standard\<close>, the Baseline circuit with 1 iteration if the operation
  counts of the circuits of the earlier stages of this pass sum to less than 2 and with
  2 iterations otherwise, and for any other strategy the Augmented circuit with 1
  iteration. The sum over no earlier stage is 0: the counter starts at 0 in each pass.
\<close>

theorem baseline_iteration_adaptation:
  assumes "run_multi_stage_search run self algorithm_type = (r, self')"
  shows "submitted self' = submitted self @ pass_calls self self' \<and>
         length (pass_calls self self') \<le> length (targets self) \<and>
         (\<not> isl r \<longrightarrow> length (pass_calls self self') = length (targets self)) \<and>
         (\<forall>k<length (pass_calls self self').
            fst (pass_calls self self' ! k) =
              (if algorithm_type = ''standard''
               then create_standard_grover (snd (targets self ! k))
                      (if sum_list (map (length \<circ> fst) (take k (pass_calls self self'))) < 2
                       then 1 else 2)
               else create_vermicular (snd (targets self ! k)) 1))"
  using pass_trace [OF assms] by (simp add: stage_circuit_def)

theorem baseline_iteration_adaptation_witness:
  "run_multi_stage_search replay (new_demo 4 sample_answers) ''standard'' =
     (fst (run_multi_stage_search replay (new_demo 4 sample_answers) ''standard''),
      snd (run_multi_stage_search replay (new_demo 4 sample_answers) ''standard'')) \<and>
   map fst (pass_calls (new_demo 4 sample_answers)
              (snd (run_multi_stage_search replay (new_demo 4 sample_answers) ''standard''))) =
     [create_standard_grover ''00'' 1, create_standard_grover ''11'' 2,
      create_standard_grover ''10'' 2] \<and>
   length (create_standard_grover ''00'' 1) = 16"
  using baseline_iteration_adaptation [of replay "new_demo 4 sample_answers" "''standard''"
      "fst (run_multi_stage_search replay (new_demo 4 sample_answers) ''standard'')"
      "snd (run_multi_stage_search replay (new_demo 4 sample_answers) ''standard'')"]
  by (simp add: eval_simps pass_calls_def)

theorem total_success_product_witness:
  "run_multi_stage_search replay (new_demo 4 sample_answers) ''standard'' =
     (Inr ([3 / 4, 1 / 2, 1], 3 / 8),
      snd (run_multi_stage_search replay (new_demo 4 sample_answers) ''standard'')) \<and>
   (3 / 8 :: real) = prod_list [3 / 4, 1 / 2, 1] \<and>
   np_prod ([3 / 4, 1 / 2, 1] @ [1 / 2]) = 3 / 16"
  using total_success_product [of replay "new_demo 4 sample_answers" "''standard''"
      "[3 / 4, 1 / 2, 1]" "3 / 8"
      "snd (run_multi_stage_search replay (new_demo 4 sample_answers) ''standard'')"]
    eval_standard
  by (simp add: prod_eq_iff np_prod_def)

text \<open>
  C6, as stated, fails. With a pattern of one character the stage raises nothing, submits
  its circuit to the backend and records a success rate. With a shot count of zero the
  circuit is submitted with that shot count, and the stage fails only afterwards, with a
  division by zero, when the backend has returned no samples.
\<close>

theorem configuration_error_counterexample:
  "length (snd (hd (targets mismatched_demo))) \<noteq> 2 \<and>
   fst (run_multi_stage_search replay mismatched_demo ''standard'') = Inr ([1 / 2], 1 / 2) \<and>
   submitted (snd (run_multi_stage_search replay mismatched_demo ''standard'')) =
     [([H 0, H 1, X 0, CZ 0 1, X 0, H 0, H 1, X 0, X 1, CZ 0 1, X 0, X 1, H 0, H 1], 2)] \<and>
   shots_per_test zero_shot_demo \<le> 0 \<and>
   fst (run_multi_stage_search replay zero_shot_demo ''standard'') = Inl ZeroDivisionError \<and>
   submitted (snd (run_multi_stage_search replay zero_shot_demo ''standard'')) =
     [(create_standard_grover ''00'' 1, 0)]"
  by (simp add: eval_simps mismatched_demo_def zero_shot_demo_def)

lemma length_backend_answers: "length (backend_answers run d calls) = length calls"
  by (induction calls arbitrary: d) (auto split: prod.splits)

lemma measure_success_rate_answer:
  assumes "measure_success_rate run self circuit target = (m, self1)"
    and "run (device self) circuit (shots_per_test self) = (answer, d')"
  shows "device self1 = d'"
    and "case m of Inl e \<Rightarrow> measurement_error answer = Some e
                 | Inr rate \<Rightarrow> measurement_error answer = None"
  using assms
  by (auto simp: measure_success_rate_def measurement_error_def Let_def
      split: sum.splits if_splits)

lemma stage_loop_answers:
  "stage_loop run alg self sr cd ts = (r, self') \<Longrightarrow>
   \<exists>calls. submitted self' = submitted self @ calls \<and>
     list_all (\<lambda>answer. measurement_error answer = None)
       (butlast (backend_answers run (device self) calls)) \<and>
     (case r of
        Inl e \<Rightarrow> calls \<noteq> [] \<and>
          measurement_error (last (backend_answers run (device self) calls)) = Some e
      | Inr sr' \<Rightarrow>
          list_all (\<lambda>answer. measurement_error answer = None)
            (backend_answers run (device self) calls))"
proof (induction ts arbitrary: self sr cd)
  case Nil
  then show ?case by auto
next
  case (Cons nt rest)
  obtain name target where nt: "nt = (name, target)"
    by (cases nt)
  define c where "c = stage_circuit alg target cd"
  obtain m self1 where m: "measure_success_rate run self c target = (m, self1)"
    by (cases "measure_success_rate run self c target")
  obtain answer d' where a: "run (device self) c (shots_per_test self) = (answer, d')"
    by (cases "run (device self) c (shots_per_test self)")
  note f = measure_success_rate_fields [OF m]
  note dev = measure_success_rate_answer [OF m a]
  show ?case
  proof (cases m)
    case (Inl e)
    then have "r = Inl e" "self' = self1"
      using Cons.prems m unfolding nt stage_loop_Cons c_def [symmetric] by simp_all
    then show ?thesis
      using f dev Inl a
      by (intro exI [of _ "[(c, shots_per_test self)]"]) simp
  next
    case (Inr rate)
    then have loop: "stage_loop run alg self1 (sr @ [rate]) (cd + length c) rest = (r, self')"
      using Cons.prems m unfolding nt stage_loop_Cons c_def [symmetric] by simp
    have ok: "measurement_error answer = None"
      using dev(2) Inr by simp
    from Cons.IH [OF loop] obtain calls where
      sub: "submitted self' = submitted self1 @ calls" and
      init: "list_all (\<lambda>answer. measurement_error answer = None)
               (butlast (backend_answers run (device self1) calls))" and
      res: "case r of
        Inl e \<Rightarrow> calls \<noteq> [] \<and>
          measurement_error (last (backend_answers run (device self1) calls)) = Some e
      | Inr sr' \<Rightarrow>
          list_all (\<lambda>answer. measurement_error answer = None)
            (backend_answers run (device self1) calls)"
      by blast
    let ?calls = "(c, shots_per_test self) # calls"
    let ?rest = "backend_answers run (device self1) calls"
    have answers: "backend_answers run (device self) ?calls = answer # ?rest"
      using a dev(1) by simp
    have nonempty: "calls \<noteq> [] \<Longrightarrow> ?rest \<noteq> []"
      using length_backend_answers [of run "device self1" calls] by auto
    have 1: "submitted self' = submitted self @ ?calls"
      using sub f by simp
    have 2: "list_all (\<lambda>answer. measurement_error answer = None)
               (butlast (backend_answers run (device self) ?calls))"
      unfolding answers using init ok by simp
    have 3: "case r of
        Inl e \<Rightarrow> ?calls \<noteq> [] \<and>
          measurement_error (last (backend_answers run (device self) ?calls)) = Some e
      | Inr sr' \<Rightarrow>
          list_all (\<lambda>answer. measurement_error answer = None)
            (backend_answers run (device self) ?calls)"
      unfolding answers using res ok nonempty by (cases r) auto
    from 1 2 3 show ?thesis by blast
  qed
qed

lemma pass_answers:
  assumes "run_multi_stage_search run self alg = (r, self')"
  shows "list_all (\<lambda>answer. measurement_error answer = None)
           (butlast (backend_answers run (device self) (pass_calls self self'))) \<and>
         (case r of
            Inl e \<Rightarrow> pass_calls self self' \<noteq> [] \<and>
              measurement_error (last (backend_answers run (device self) (pass_calls self self')))
                = Some e
          | Inr x \<Rightarrow>
              list_all (\<lambda>answer. measurement_error answer = None)
                (backend_answers run (device self) (pass_calls self self')))"
proof (cases r)
  case (Inl e)
  have loop: "stage_loop run alg self [] 0 (targets self) = (Inl e, self')"
    using run_multi_stage_search_Inl [of run self alg e self'] assms Inl by simp
  from stage_loop_answers [OF loop] obtain calls where
    c: "submitted self' = submitted self @ calls"
      "list_all (\<lambda>answer. measurement_error answer = None)
         (butlast (backend_answers run (device self) calls))"
      "calls \<noteq> [] \<and> measurement_error (last (backend_answers run (device self) calls)) = Some e"
    by auto
  have "pass_calls self self' = calls"
    by (simp add: pass_calls_def c(1))
  then show ?thesis
    using c Inl by simp
next
  case (Inr x)
  obtain sr tot where x: "x = (sr, tot)" by (cases x)
  from run_multi_stage_search_Inr [of run self alg sr tot self'] assms Inr x
  obtain s1 where loop: "stage_loop run alg self [] 0 (targets self) = (Inr sr, s1)"
    and self': "self' = s1\<lparr>results := (results s1)(alg \<mapsto> \<lparr>stages = sr, total = tot\<rparr>)\<rparr>"
    by auto
  from stage_loop_answers [OF loop] obtain calls where
    c: "submitted s1 = submitted self @ calls"
      "list_all (\<lambda>answer. measurement_error answer = None)
         (butlast (backend_answers run (device self) calls))"
      "list_all (\<lambda>answer. measurement_error answer = None)
         (backend_answers run (device self) calls)"
    by auto
  have "pass_calls self self' = calls"
    by (simp add: pass_calls_def c(1) self')
  then show ?thesis
    using c Inr by simp
qed

text \<open>
  C6, amended: the code checks neither the pattern length nor the shot count. Whatever
  they are, the backend calls of a pass are, in order, the circuits of its stages, call
  \<open>k\<close> being the circuit of stage \<open>k\<close> with the configured shot count: one call
  for every stage that is reached, one per stage of the catalog when the pass completes.
  Every call but the last was answered with samples that gave a rate. When the pass
  fails, the last call is the one whose answer made it fail, with the error the backend
  raised or, when the backend returned no samples, with a division by zero: the failure
  comes after the backend call, the failed stage is not submitted again, and no later
  stage is submitted.
\<close>

theorem stage_fails_only_after_submission:
  assumes "run_multi_stage_search run self algorithm_type = (r, self')"
  shows "submitted self' = submitted self @ pass_calls self self' \<and>
         length (pass_calls self self') \<le> length (targets self) \<and>
         (\<forall>k<length (pass_calls self self').
            pass_calls self self' ! k =
              (if algorithm_type = ''standard''
               then create_standard_grover (snd (targets self ! k))
                      (if sum_list (map (length \<circ> fst) (take k (pass_calls self self'))) < 2
                       then 1 else 2)
               else create_vermicular (snd (targets self ! k)) 1,
               shots_per_test self)) \<and>
         (\<forall>call\<in>set (pass_calls self self'). snd call = shots_per_test self) \<and>
         list_all (\<lambda>answer. measurement_error answer = None)
           (butlast (backend_answers run (device self) (pass_calls self self'))) \<and>
         (case r of
            Inl e \<Rightarrow> pass_calls self self' \<noteq> [] \<and>
              measurement_error (last (backend_answers run (device self) (pass_calls self self')))
                = Some e
          | Inr x \<Rightarrow> length (pass_calls self self') = length (targets self) \<and>
              list_all (\<lambda>answer. measurement_error answer = None)
                (backend_answers run (device self) (pass_calls self self'))) \<and>
         (\<not> isl r \<longrightarrow> length (pass_calls self self') = length (targets self)) \<and>
         (isl r \<longrightarrow> pass_calls self self' \<noteq> []) \<and>
         submitted (snd (measure_success_rate run self circuit target)) =
           submitted self @ [(circuit, shots_per_test self)] \<and>
         (case fst (measure_success_rate run self circuit target) of
            Inl e \<Rightarrow>
              measurement_error (fst (run (device self) circuit (shots_per_test self))) = Some e
          | Inr rate \<Rightarrow>
              measurement_error (fst (run (device self) circuit (shots_per_test self))) = None) \<and>
         (\<forall>e. fst (measure_success_rate run self circuit target) = Inl e \<longrightarrow>
            fst (run (device self) circuit (shots_per_test self)) = Inl e \<or>
            e = ZeroDivisionError \<and>
            fst (run (device self) circuit (shots_per_test self)) = Inr [])"
proof -
  note t = pass_trace [OF assms]
  note a = pass_answers [OF assms]
  have nth: "\<forall>k<length (pass_calls self self').
            pass_calls self self' ! k =
              (if algorithm_type = ''standard''
               then create_standard_grover (snd (targets self ! k))
                      (if sum_list (map (length \<circ> fst) (take k (pass_calls self self'))) < 2
                       then 1 else 2)
               else create_vermicular (snd (targets self ! k)) 1,
               shots_per_test self)"
    using t by (simp add: stage_circuit_def)
  have shots: "\<forall>call\<in>set (pass_calls self self'). snd call = shots_per_test self"
  proof
    fix call assume "call \<in> set (pass_calls self self')"
    then obtain k where "k < length (pass_calls self self')" "call = pass_calls self self' ! k"
      by (auto simp: in_set_conv_nth)
    then show "snd call = shots_per_test self"
      using t by simp
  qed
  have res: "case r of
            Inl e \<Rightarrow> pass_calls self self' \<noteq> [] \<and>
              measurement_error (last (backend_answers run (device self) (pass_calls self self')))
                = Some e
          | Inr x \<Rightarrow> length (pass_calls self self') = length (targets self) \<and>
              list_all (\<lambda>answer. measurement_error answer = None)
                (backend_answers run (device self) (pass_calls self self'))"
    using a t by (cases r) simp_all
  have one: "submitted (snd (measure_success_rate run self circuit target)) =
           submitted self @ [(circuit, shots_per_test self)]"
    using measure_success_rate_fields(1) [of run self circuit target] by (simp add: prod_eq_iff)
  have answer: "case fst (measure_success_rate run self circuit target) of
            Inl e \<Rightarrow>
              measurement_error (fst (run (device self) circuit (shots_per_test self))) = Some e
          | Inr rate \<Rightarrow>
              measurement_error (fst (run (device self) circuit (shots_per_test self))) = None"
    using measure_success_rate_answer(2) [of run self circuit target
        "fst (measure_success_rate run self circuit target)"
        "snd (measure_success_rate run self circuit target)"
        "fst (run (device self) circuit (shots_per_test self))"
        "snd (run (device self) circuit (shots_per_test self))"]
    by simp
  have err: "\<forall>e. fst (measure_success_rate run self circuit target) = Inl e \<longrightarrow>
            fst (run (device self) circuit (shots_per_test self)) = Inl e \<or>
            e = ZeroDivisionError \<and>
            fst (run (device self) circuit (shots_per_test self)) = Inr []"
    by (auto simp: measure_success_rate_def Let_def split: prod.splits sum.splits if_splits)
  show ?thesis
    using t nth shots a res one answer err by simp
qed

theorem stage_fails_only_after_submission_witness:
  "run_multi_stage_search replay (new_demo 2 failing_answers) ''vermicular'' =
     (Inl ZeroDivisionError,
      snd (run_multi_stage_search replay (new_demo 2 failing_answers) ''vermicular'')) \<and>
   pass_calls (new_demo 2 failing_answers)
     (snd (run_multi_stage_search replay (new_demo 2 failing_answers) ''vermicular'')) =
     [(create_vermicular ''00'' 1, 2), (create_vermicular ''11'' 1, 2)] \<and>
   backend_answers replay (device (new_demo 2 failing_answers))
     [(create_vermicular ''00'' 1, 2), (create_vermicular ''11'' 1, 2)] =
     [Inr [[0, 0], [0, 1]], Inr []] \<and>
   measurement_error (Inr [[0, 0], [0, 1]]) = None \<and>
   measurement_error (Inr []) = Some ZeroDivisionError"
  using stage_fails_only_after_submission [of replay "new_demo 2 failing_answers" "''vermicular''"
      "Inl ZeroDivisionError"
      "snd (run_multi_stage_search replay (new_demo 2 failing_answers) ''vermicular'')"]
  by (simp add: eval_simps failing_answers_def pass_calls_def prod_eq_iff measurement_error_def)


lemma pass_gives_completed_run:
  assumes "run_multi_stage_search run self alg = (Inr (sr, tot), self')"
  shows "results self' alg = Some \<lparr>stages = sr, total = tot\<rparr>"
    and "completed_run (targets self') \<lparr>stages = sr, total = tot\<rparr>"
    and "targets self' = targets self"
    and "other \<noteq> alg \<Longrightarrow> results self' other = results self other"
proof -
  obtain s1 where loop: "stage_loop run alg self [] 0 (targets self) = (Inr sr, s1)"
    and self': "self' = s1\<lparr>results := (results s1)(alg \<mapsto> \<lparr>stages = sr, total = tot\<rparr>)\<rparr>"
    using run_multi_stage_search_Inr [OF assms] by blast
  note f = stage_loop_fields [OF loop]
  note r = run_multi_stage_search_rates [OF assms]
  show "results self' alg = Some \<lparr>stages = sr, total = tot\<rparr>"
    by (simp add: self')
  show t: "targets self' = targets self"
    using f by (simp add: self')
  show "completed_run (targets self') \<lparr>stages = sr, total = tot\<rparr>"
    using r by (simp add: completed_run_def t list_all_iff)
  show "other \<noteq> alg \<Longrightarrow> results self' other = results self other"
    using f by (simp add: self')
qed

lemma comparison_loop_ok:
  "i + length ts \<le> length (stages standard) \<Longrightarrow>
   i + length ts \<le> length (stages vermicular) \<Longrightarrow>
   comparison_loop standard vermicular advantages i ts =
     Inr (advantages @
          map (\<lambda>k. if stages standard ! k > 0
                    then Finite (stages vermicular ! k / stages standard ! k) else PosInf)
              [i..<i + length ts])"
proof (induction ts arbitrary: advantages i)
  case Nil
  show ?case by simp
next
  case (Cons nt rest)
  obtain name target where nt: "nt = (name, target)"
    by (cases nt)
  have i: "i < length (stages standard)" "i < length (stages vermicular)"
    using Cons.prems by simp_all
  have range: "[i..<Suc (i + length rest)] = i # [Suc i..<Suc (i + length rest)]"
    by (rule upt_conv_Cons) simp
  have "Suc i + length rest \<le> length (stages standard)"
       "Suc i + length rest \<le> length (stages vermicular)"
    using Cons.prems by simp_all
  note IH = Cons.IH [OF this]
  show ?case
    unfolding nt comparison_loop.simps
    using i by (simp add: IH Let_def range del: upt_Suc)
qed

lemma map_index_zip:
  "length xs = length ys \<Longrightarrow>
   map (\<lambda>k. f (xs ! k) (ys ! k)) [0..<length ys] = map2 f xs ys"
  by (rule nth_equalityI) simp_all

lemma np_prod_nonneg:
  "list_all (\<lambda>r. 0 \<le> r \<and> r \<le> 1) xs \<Longrightarrow> 0 \<le> np_prod xs"
  using prod_list_unit_interval [of xs] by (simp add: np_prod_prod_list list_all_iff)

text \<open>
  C7: for a results dictionary holding a completed run of each strategy over the catalog,
  the comparison raises nothing and yields, per stage, the Augmented rate divided by the
  Baseline rate, or the infinite value when the Baseline rate is zero, and for the totals
  the same.
\<close>

theorem comparison_ratios:
  assumes "results self ''standard'' = Some standard"
    and "results self ''vermicular'' = Some vermicular"
    and "completed_run (targets self) standard"
    and "completed_run (targets self) vermicular"
  shows "display_final_comparison self =
           Inr (map2 (\<lambda>ver_rate std_rate.
                        if std_rate = 0 then PosInf else Finite (ver_rate / std_rate))
                  (stages vermicular) (stages standard),
                if total standard = 0 then PosInf
                else Finite (total vermicular / total standard))"
proof -
  have len: "length (stages standard) = length (targets self)"
    "length (stages vermicular) = length (targets self)"
    using assms(3,4) by (simp_all add: completed_run_def)
  have rates: "\<forall>r\<in>set (stages standard). 0 \<le> r"
    using assms(3) by (simp add: completed_run_def list_all_iff)
  have tot: "0 \<le> total standard"
    using assms(3) np_prod_nonneg by (simp add: completed_run_def)
  have loop: "comparison_loop standard vermicular [] 0 (targets self) =
     Inr (map (\<lambda>k. if stages standard ! k > 0
                    then Finite (stages vermicular ! k / stages standard ! k) else PosInf)
              [0..<length (stages standard)])"
    using comparison_loop_ok [of 0 "targets self" standard vermicular "[]"] len by simp
  have "map (\<lambda>k. if stages standard ! k > 0
                    then Finite (stages vermicular ! k / stages standard ! k) else PosInf)
              [0..<length (stages standard)]
      = map (\<lambda>k. (\<lambda>ver_rate std_rate.
                        if std_rate = 0 then PosInf else Finite (ver_rate / std_rate))
                     (stages vermicular ! k) (stages standard ! k))
              [0..<length (stages standard)]"
    using rates by (intro map_cong refl) (auto simp: less_le)
  also have "\<dots> = map2 (\<lambda>ver_rate std_rate.
                        if std_rate = 0 then PosInf else Finite (ver_rate / std_rate))
                  (stages vermicular) (stages standard)"
    using len by (intro map_index_zip) simp
  finally have advantages: "comparison_loop standard vermicular [] 0 (targets self) =
      Inr (map2 (\<lambda>ver_rate std_rate.
                        if std_rate = 0 then PosInf else Finite (ver_rate / std_rate))
                  (stages vermicular) (stages standard))"
    using loop by simp
  show ?thesis
    using tot by (simp add: display_final_comparison_def assms(1,2) advantages Let_def less_le)
qed

lemma compared_demo_results:
  "results compared_demo ''standard'' = Some \<lparr>stages = [0, 1 / 2, 1], total = 0\<rparr>"
  "results compared_demo ''vermicular'' = Some \<lparr>stages = [1 / 2, 1, 1], total = 1 / 2\<rparr>"
  "targets compared_demo = [(''Alpha'', ''00''), (''Beta'', ''11''), (''Gamma'', ''10'')]"
  by (simp_all add: compared_demo_def comparison_answers_def eval_simps)

theorem comparison_ratios_witness:
  "results compared_demo ''standard'' = Some \<lparr>stages = [0, 1 / 2, 1], total = 0\<rparr> \<and>
   results compared_demo ''vermicular'' = Some \<lparr>stages = [1 / 2, 1, 1], total = 1 / 2\<rparr> \<and>
   completed_run (targets compared_demo) \<lparr>stages = [0, 1 / 2, 1], total = 0\<rparr> \<and>
   completed_run (targets compared_demo) \<lparr>stages = [1 / 2, 1, 1], total = 1 / 2\<rparr> \<and>
   display_final_comparison compared_demo = Inr ([PosInf, Finite 2, Finite 1], PosInf)"
  using comparison_ratios [of compared_demo "\<lparr>stages = [0, 1 / 2, 1], total = 0\<rparr>"
      "\<lparr>stages = [1 / 2, 1, 1], total = 1 / 2\<rparr>"]
  by (simp add: compared_demo_results completed_run_def np_prod_def)

section \<open>Pulses, the oracle and the state\<close>

lemma run_circuit_append: "run_circuit (c @ c') \<psi> = run_circuit c' (run_circuit c \<psi>)"
  by (simp add: run_circuit_def)

lemma run_circuit_Nil: "run_circuit [] \<psi> = \<psi>"
  by (simp add: run_circuit_def)

lemma run_circuit_Cons: "run_circuit (g # c) \<psi> = run_circuit c (apply_gate g \<psi>)"
  by (simp add: run_circuit_def)

lemma flip_twice: "apply_gate (X i) (apply_gate (X i) \<psi>) = \<psi>"
  by (simp add: fun_eq_iff)

lemma run_circuit_remove_pulses: "run_circuit (remove_pulses c) \<psi> = run_circuit c \<psi>"
proof (induction c arbitrary: \<psi> rule: remove_pulses.induct)
  case (1 i j rest)
  then show ?case
    by (cases "i = j") (simp_all add: run_circuit_def flip_twice)
qed (simp_all add: run_circuit_def)

lemma remove_pulses_flips:
  "sorted_wrt (<) ps \<Longrightarrow> (\<forall>i tl. rest \<noteq> X i # tl) \<Longrightarrow>
   remove_pulses (map X ps @ rest) = map X ps @ remove_pulses rest"
proof (induction ps rule: induct_list012)
  case 1
  show ?case by simp
next
  case (2 p)
  show ?case
  proof (cases rest)
    case Nil
    then show ?thesis by simp
  next
    case (Cons g tl)
    then show ?thesis
      using 2 by (cases g) simp_all
  qed
next
  case (3 p q qs)
  then show ?case by simp
qed

lemma sorted_flip_positions: "sorted_wrt (<) (filter P [0..<n])"
  by (simp add: sorted_wrt_filter)

lemma remove_pulses_oracle_diffusion:
  "remove_pulses (oracle_ops target @ diffusion_ops @ rest) =
     oracle_ops target @ diffusion_ops @ remove_pulses rest"
proof -
  have flips: "remove_pulses (flip_ops target @ g # tl) =
      flip_ops target @ remove_pulses (g # tl)" if "\<forall>i. g \<noteq> X i" for g tl
    unfolding flip_ops_def
    by (rule remove_pulses_flips) (simp_all add: sorted_flip_positions that)
  have "remove_pulses (oracle_ops target @ diffusion_ops @ rest) =
      flip_ops target @ remove_pulses (CZ 0 1 # flip_ops target @ diffusion_ops @ rest)"
    unfolding oracle_ops_def append_assoc append_Cons append_Nil
    by (rule flips) simp
  also have "remove_pulses (CZ 0 1 # flip_ops target @ diffusion_ops @ rest) =
      CZ 0 1 # remove_pulses (flip_ops target @ diffusion_ops @ rest)"
    by simp
  also have "remove_pulses (flip_ops target @ diffusion_ops @ rest) =
      flip_ops target @ remove_pulses (diffusion_ops @ rest)"
    unfolding diffusion_ops_def append_Cons append_Nil
    by (rule flips) simp
  also have "remove_pulses (diffusion_ops @ rest) = diffusion_ops @ remove_pulses rest"
    by (simp add: diffusion_ops_def)
  finally show ?thesis
    by (simp add: oracle_ops_def)
qed

lemma remove_pulses_pulse_block: "remove_pulses (pulse_block @ rest) = remove_pulses rest"
  by (simp add: pulse_block_eq)

lemma remove_pulses_blocks:
  "remove_pulses (concat (map (\<lambda>k. oracle_ops target @ diffusion_ops @
        (if c k then pulse_block else [])) ks) @ rest) =
     concat (replicate (length ks) (oracle_ops target @ diffusion_ops)) @ remove_pulses rest"
proof (induction ks)
  case Nil
  show ?case by simp
next
  case (Cons k ks)
  show ?case
    by (cases "c k")
       (simp_all add: remove_pulses_oracle_diffusion remove_pulses_pulse_block Cons.IH)
qed

lemma remove_pulses_create_vermicular:
  "remove_pulses (create_vermicular target iterations) = create_standard_grover target iterations"
proof -
  have "remove_pulses (superposition_ops @ c) = superposition_ops @ remove_pulses c" for c
    by (simp add: superposition_ops_def)
  then show ?thesis
    unfolding create_vermicular_shape create_standard_grover_shape
    using remove_pulses_pulse_block [of "[]"]
    by (simp add: remove_pulses_pulse_block remove_pulses_blocks)
qed

lemma run_circuit_flips:
  "run_circuit (map X ps) \<psi> = (\<lambda>b. \<psi> (\<lambda>k. b k \<noteq> odd (count_list ps k)))"
proof (induction ps arbitrary: \<psi>)
  case Nil
  show ?case by (simp add: run_circuit_def)
next
  case (Cons p ps)
  have "run_circuit (map X (p # ps)) \<psi> = run_circuit (map X ps) (apply_gate (X p) \<psi>)"
    by (simp add: run_circuit_def)
  also have "\<dots> = (\<lambda>b. apply_gate (X p) \<psi> (\<lambda>k. b k \<noteq> odd (count_list ps k)))"
    by (rule Cons.IH)
  also have "\<dots> = (\<lambda>b. \<psi> (\<lambda>k. b k \<noteq> odd (count_list (p # ps) k)))"
  proof (rule ext)
    fix b
    have "(\<lambda>k. b k \<noteq> odd (count_list ps k))(p := \<not> (b p \<noteq> odd (count_list ps p)))
        = (\<lambda>k. b k \<noteq> odd (count_list (p # ps) k))"
      by (rule ext) auto
    then show "apply_gate (X p) \<psi> (\<lambda>k. b k \<noteq> odd (count_list ps k))
        = \<psi> (\<lambda>k. b k \<noteq> odd (count_list (p # ps) k))"
      by simp
  qed
  finally show ?case .
qed

lemma run_circuit_flips_twice: "run_circuit (map X ps @ map X ps) \<psi> = \<psi>"
proof -
  have inv: "(\<lambda>k. (b k \<noteq> odd (count_list ps k)) \<noteq> odd (count_list ps k)) = b" for b
    by (rule ext) auto
  show ?thesis
    unfolding run_circuit_append run_circuit_flips inv ..
qed

lemma run_circuit_oracle_ops:
  "run_circuit (oracle_ops target) \<psi> =
     (\<lambda>b. if (b 0 \<noteq> odd (count_list (filter (\<lambda>i. target ! i = CHR ''0'') [0..<length target]) 0)) \<and>
              (b 1 \<noteq> odd (count_list (filter (\<lambda>i. target ! i = CHR ''0'') [0..<length target]) 1))
           then - \<psi> b else \<psi> b)"
proof -
  define ps where "ps = filter (\<lambda>i. target ! i = CHR ''0'') [0..<length target]"
  have "run_circuit (oracle_ops target) \<psi> =
      run_circuit (map X ps) (apply_gate (CZ 0 1) (run_circuit (map X ps) \<psi>))"
    by (simp add: oracle_ops_def flip_ops_def ps_def run_circuit_append run_circuit_Cons)
  also have "\<dots> = (\<lambda>b. if (b 0 \<noteq> odd (count_list ps 0)) \<and> (b 1 \<noteq> odd (count_list ps 1))
           then - \<psi> b else \<psi> b)"
  proof -
    have inv: "(\<lambda>k. (b k = even (count_list ps k)) = even (count_list ps k)) = b" for b
      by (rule ext) auto
    show ?thesis
      unfolding run_circuit_flips by (rule ext) (auto simp: inv)
  qed
  finally show ?thesis
    unfolding ps_def .
qed

text \<open>
  For a pattern of width 2 the oracle changes the sign of the amplitude of the assignment
  that spells the pattern, and of no other.
\<close>

lemma oracle_marks_target:
  assumes "length target = 2"
  shows "run_circuit (oracle_ops target) \<psi> b =
           (if b 0 = (target ! 0 \<noteq> CHR ''0'') \<and> b 1 = (target ! 1 \<noteq> CHR ''0'')
            then - \<psi> b else \<psi> b)"
proof -
  have range: "[0..<length target] = [0, Suc 0]"
    unfolding assms by (simp add: upt_conv_Cons numeral_2_eq_2)
  show ?thesis
    unfolding run_circuit_oracle_ops range
    by (cases "target ! 0 = CHR ''0''"; cases "target ! Suc 0 = CHR ''0''"; simp)
qed

lemma run_circuit_oracle_twice:
  "run_circuit (oracle_ops target @ oracle_ops target) \<psi> = \<psi>"
  unfolding run_circuit_append run_circuit_oracle_ops by (rule ext) simp

text \<open>
  C8: for every target pattern and every state, the oracle's operations applied twice in
  succession give back the state itself (so also up to a global phase), on an empty
  circuit and after any circuit: the bit-flips of the pattern applied twice are the
  identity, and so is the conditional-phase gate applied twice.
\<close>

theorem oracle_twice_identity:
  "run_circuit (apply_oracle (apply_oracle [] target) target) \<psi> = \<psi> \<and>
   run_circuit (apply_oracle (apply_oracle circuit target) target) \<psi> = run_circuit circuit \<psi> \<and>
   run_circuit (flip_ops target @ flip_ops target) \<psi> = \<psi> \<and>
   run_circuit [CZ 0 1, CZ 0 1] \<psi> = \<psi>"
proof -
  have cz: "run_circuit [CZ 0 1, CZ 0 1] \<psi> = \<psi>"
    by (simp add: run_circuit_def fun_eq_iff)
  have flips: "run_circuit (flip_ops target @ flip_ops target) \<psi> = \<psi>"
    unfolding flip_ops_def by (rule run_circuit_flips_twice)
  have twice: "run_circuit (apply_oracle (apply_oracle c target) target) \<phi> = run_circuit c \<phi>"
    for c \<phi>
    using run_circuit_oracle_twice [of target "run_circuit c \<phi>"]
    by (simp add: apply_oracle_append run_circuit_append)
  have "run_circuit [] \<psi> = \<psi>"
    by (simp add: run_circuit_def)
  then show ?thesis
    using cz flips twice [of "[]" \<psi>] twice [of circuit \<psi>] by simp
qed

text \<open>
  C9: for every target pattern and every iteration count, deleting the decoupling pulses
  from the Augmented circuit gives the Baseline circuit for the same pattern and count,
  operation for operation; the two circuits take every state to the same state, and so
  give every outcome the same probability on an ideal device.
\<close>

theorem pulses_removed_is_baseline:
  "remove_pulses (create_vermicular target iterations) = create_standard_grover target iterations \<and>
   run_circuit (create_vermicular target iterations) \<psi> =
     run_circuit (create_standard_grover target iterations) \<psi> \<and>
   ideal_probability (create_vermicular target iterations) \<psi> =
     ideal_probability (create_standard_grover target iterations) \<psi>"
proof -
  have same: "run_circuit (create_vermicular target iterations) \<phi> =
     run_circuit (create_standard_grover target iterations) \<phi>" for \<phi>
    using run_circuit_remove_pulses [of "create_vermicular target iterations" \<phi>]
    by (simp add: remove_pulses_create_vermicular)
  then show ?thesis
    by (simp add: remove_pulses_create_vermicular ideal_probability_def fun_eq_iff)
qed


end
